theory Spec2Isabelle
  imports Complex_Main
begin

section \<open>HeatGuard: the computational core of app.py\<close>

text \<open>
  The script app.py computes a heat index per forecast hour, classifies it, finds the
  peak hour, merges the safer hours into windows and derives work/rest and hydration
  guidance. Python's floats are read as real numbers and its integers as \<open>int\<close>.
  The rounding of float arithmetic is not part of the model, so no property below rests
  on two floats being different; the one float operation of the code that raises on
  overflow, the power \<open>x ** 2\<close>, has its error branch. An exception is a value of
  \<open>error\<close>. Strings that hold characters outside ASCII are given by their UTF-8
  bytes.
\<close>

subsection \<open>Errors\<close>

datatype error =
    NoHourlyForecast   \<comment> \<open>the branch \<open>if not hourly: st.error("No hourly forecast returned.")\<close>\<close>
  | TypeError          \<comment> \<open>arithmetic on \<open>None\<close>\<close>
  | KeyError           \<comment> \<open>a missing dictionary key read with \<open>d[k]\<close>\<close>
  | MathDomainError    \<comment> \<open>\<open>math.sqrt\<close> of a negative number (a ValueError)\<close>
  | OverflowError      \<comment> \<open>a float power whose result leaves the range of doubles\<close>
  | DateOutOfRange     \<comment> \<open>\<open>utcfromtimestamp\<close> outside the years 1 to 9999\<close>
  | MaxOfEmpty         \<comment> \<open>\<open>max\<close> of an empty sequence (a ValueError)\<close>

subsection \<open>Heat index (heat_index_f)\<close>

definition math_sqrt :: "real \<Rightarrow> error + real" where
  "math_sqrt x = (if x < 0 then Inl MathDomainError else Inr (sqrt x))"

text \<open>
  \<open>x ** 2\<close> on a float raises OverflowError when the square leaves the range of
  doubles; for a double \<open>x\<close> that is exactly when \<open>\<bar>x\<bar> \<ge> 2 ^ 512\<close>. The
  products and sums of the code do not raise.
\<close>

definition float_pow2 :: "real \<Rightarrow> error + real" where
  "float_pow2 x = (if 2 ^ 512 \<le> \<bar>x\<bar> then Inl OverflowError else Inr (x ^ 2))"

text \<open>
  The expression for \<open>HI\<close> evaluates \<open>T_f ** 2\<close> first and \<open>RH ** 2\<close> next; the
  later occurrences of the two powers have the same values.
\<close>

definition heat_index_f :: "real \<Rightarrow> real \<Rightarrow> error + real" where
  "heat_index_f T_f RH =
     (let c1 = - 42.379;
          c2 = 2.04901523;
          c3 = 10.14333127;
          c4 = - 0.22475541;
          c5 = - 0.00683783;
          c6 = - 0.05481717;
          c7 = 0.00122874;
          c8 = 0.00085282;
          c9 = - 0.00000199
      in case float_pow2 T_f of
           Inl e \<Rightarrow> Inl e
         | Inr T_f2 \<Rightarrow>
            (case float_pow2 RH of
               Inl e \<Rightarrow> Inl e
             | Inr RH2 \<Rightarrow>
                (let HI = (c1 + c2 * T_f + c3 * RH + c4 * T_f * RH + c5 * T_f2 + c6 * RH2
                           + c7 * T_f2 * RH + c8 * T_f * RH2 + c9 * T_f2 * RH2)
                 in if RH < 13 \<and> 80 \<le> T_f \<and> T_f \<le> 112 then
                      (case math_sqrt ((17 - \<bar>T_f - 95\<bar>) / 17) of
                         Inl e \<Rightarrow> Inl e
                       | Inr s \<Rightarrow> Inr (HI - ((13 - RH) / 4) * s))
                    else if RH > 85 \<and> 80 \<le> T_f \<and> T_f \<le> 87 then
                      Inr (HI + ((RH - 85) / 10) * ((87 - T_f) / 5))
                    else Inr HI)))"

text \<open>
  The formula as the specification words it: the Rothfusz polynomial, then the two
  corrections, each applied under its own condition.
\<close>

definition rothfusz_polynomial :: "real \<Rightarrow> real \<Rightarrow> real" where
  "rothfusz_polynomial T RH =
     - 42.379 + 2.04901523 * T + 10.14333127 * RH + - 0.22475541 * T * RH
     + - 0.00683783 * T\<^sup>2 + - 0.05481717 * RH\<^sup>2 + 0.00122874 * T\<^sup>2 * RH
     + 0.00085282 * T * RH\<^sup>2 + - 0.00000199 * T\<^sup>2 * RH\<^sup>2"

definition low_humidity_case :: "real \<Rightarrow> real \<Rightarrow> bool" where
  "low_humidity_case T RH = (RH < 13 \<and> 80 \<le> T \<and> T \<le> 112)"

definition high_humidity_case :: "real \<Rightarrow> real \<Rightarrow> bool" where
  "high_humidity_case T RH = (RH > 85 \<and> 80 \<le> T \<and> T \<le> 87)"

definition noaa_heat_index :: "real \<Rightarrow> real \<Rightarrow> real" where
  "noaa_heat_index T RH =
     rothfusz_polynomial T RH
     - (if low_humidity_case T RH then ((13 - RH) / 4) * sqrt ((17 - \<bar>T - 95\<bar>) / 17) else 0)
     + (if high_humidity_case T RH then ((RH - 85) / 10) * ((87 - T) / 5) else 0)"

subsection \<open>Risk category (risk_from_hi)\<close>

text \<open>The four risk names the script uses as strings, and their order in the specification.\<close>

datatype risk = Low | Moderate | High | Extreme

fun risk_rank :: "risk \<Rightarrow> nat" where
  "risk_rank Low = 0"
| "risk_rank Moderate = 1"
| "risk_rank High = 2"
| "risk_rank Extreme = 3"

definition red_circle :: string where
  "red_circle = [CHR 0xF0, CHR 0x9F, CHR 0x94, CHR 0xB4]"

definition orange_circle :: string where
  "orange_circle = [CHR 0xF0, CHR 0x9F, CHR 0x9F, CHR 0xA0]"

definition yellow_circle :: string where
  "yellow_circle = [CHR 0xF0, CHR 0x9F, CHR 0x9F, CHR 0xA1]"

definition green_circle :: string where
  "green_circle = [CHR 0xF0, CHR 0x9F, CHR 0x9F, CHR 0xA2]"

definition risk_from_hi :: "real \<Rightarrow> risk \<times> string" where
  "risk_from_hi hi_f =
     (if hi_f \<ge> 125 then (Extreme, red_circle)
      else if hi_f \<ge> 104 then (High, orange_circle)
      else if hi_f \<ge> 90 then (Moderate, yellow_circle)
      else (Low, green_circle))"

subsection \<open>Hour labels (fmt_hour)\<close>

text \<open>
  \<open>datetime.utcfromtimestamp\<close> accepts the seconds of the years 1 to 9999 and raises
  outside them; \<open>strftime("%-I%p")\<close> prints the hour on the 12-hour clock without a
  leading zero, followed by AM or PM.
\<close>

definition utcfromtimestamp_ok :: "int \<Rightarrow> bool" where
  "utcfromtimestamp_ok t = (- 62135596800 \<le> t \<and> t \<le> 253402300799)"

definition hour_of_day :: "int \<Rightarrow> int" where
  "hour_of_day t = (t div 3600) mod 24"

definition digit_char :: "int \<Rightarrow> char" where
  "digit_char d = ''0123456789'' ! nat d"

definition strftime_I_p :: "int \<Rightarrow> string" where
  "strftime_I_p hr =
     (let h12 = (if hr mod 12 = 0 then 12 else hr mod 12)
      in (if h12 < 10 then [digit_char h12] else [CHR ''1'', digit_char (h12 - 10)])
         @ (if hr < 12 then ''AM'' else ''PM''))"

definition fmt_hour :: "int \<Rightarrow> int \<Rightarrow> error + string" where
  "fmt_hour ts tz_offset_seconds =
     (if utcfromtimestamp_ok (ts + tz_offset_seconds)
      then Inr (strftime_I_p (hour_of_day (ts + tz_offset_seconds)))
      else Inl DateOutOfRange)"

subsection \<open>Forecast rows and the peak\<close>

text \<open>
  One hourly record of the forecast: a dictionary read at the keys dt, temp, humidity and
  uvi. \<open>None\<close> stands for a key that is absent.
\<close>

record hourly_reading =
  h_dt :: "int option"
  h_temp :: "real option"
  h_humidity :: "real option"
  h_uvi :: "real option"

text \<open>The dictionary the loop appends for each hour.\<close>

record row =
  ts :: int
  temp_f :: real
  rh :: real
  uvi :: real
  hi_f :: real
  risk :: risk
  emoji :: string
  hour :: string

definition get_humidity :: "hourly_reading \<Rightarrow> real" where
  \<comment> \<open>\<open>h.get("humidity", 0)\<close>\<close>
  "get_humidity h = (case h_humidity h of None \<Rightarrow> 0 | Some x \<Rightarrow> x)"

definition get_uvi :: "hourly_reading \<Rightarrow> real" where
  \<comment> \<open>\<open>h.get("uvi", 0.0) or 0.0\<close>: a zero stays zero\<close>
  "get_uvi h = (case h_uvi h of None \<Rightarrow> 0 | Some x \<Rightarrow> if x = 0 then 0 else x)"

text \<open>
  The body of the loop over \<open>hourly\<close>. An absent temperature is \<open>None\<close> and fails in
  the arithmetic of \<open>heat_index_f\<close>; an absent dt fails at \<open>h["dt"]\<close>.
\<close>

definition annotate :: "int \<Rightarrow> hourly_reading \<Rightarrow> error + row" where
  "annotate tz_offset h =
     (let RH = get_humidity h;
          UVI = get_uvi h
      in case h_temp h of
           None \<Rightarrow> Inl TypeError
         | Some T_f \<Rightarrow>
            (case heat_index_f T_f RH of
               Inl e \<Rightarrow> Inl e
             | Inr HI0 \<Rightarrow>
                (let HI = (if UVI \<ge> 8 then HI0 + 3.0 else HI0);
                     (r, e) = risk_from_hi HI
                 in case h_dt h of
                      None \<Rightarrow> Inl KeyError
                    | Some d \<Rightarrow>
                       (case fmt_hour d tz_offset of
                          Inl err \<Rightarrow> Inl err
                        | Inr label \<Rightarrow>
                           Inr \<lparr>ts = d, temp_f = T_f, rh = RH, uvi = UVI, hi_f = HI,
                                risk = r, emoji = e, hour = label\<rparr>))))"

fun forecast_rows :: "int \<Rightarrow> row list \<Rightarrow> hourly_reading list \<Rightarrow> error + row list" where
  "forecast_rows tz_offset rows [] = Inr rows"
| "forecast_rows tz_offset rows (h # hs) =
     (case annotate tz_offset h of
        Inl e \<Rightarrow> Inl e
      | Inr r \<Rightarrow> forecast_rows tz_offset (rows @ [r]) hs)"

text \<open>
  Python's \<open>max(xs, key=f)\<close>: the running maximum is replaced only by a strictly greater
  key, and an empty sequence raises.
\<close>

fun max_loop :: "('a \<Rightarrow> real) \<Rightarrow> 'a \<Rightarrow> 'a list \<Rightarrow> 'a" where
  "max_loop key best [] = best"
| "max_loop key best (x # xs) = max_loop key (if key x > key best then x else best) xs"

definition py_max :: "('a \<Rightarrow> real) \<Rightarrow> 'a list \<Rightarrow> error + 'a" where
  "py_max key xs = (case xs of [] \<Rightarrow> Inl MaxOfEmpty | x # rest \<Rightarrow> Inr (max_loop key x rest))"

definition process_forecast :: "int \<Rightarrow> hourly_reading list \<Rightarrow> error + (row list \<times> row)" where
  "process_forecast tz_offset hourly =
     (if hourly = [] then Inl NoHourlyForecast
      else case forecast_rows tz_offset [] hourly of
             Inl e \<Rightarrow> Inl e
           | Inr rows \<Rightarrow>
              (case py_max hi_f rows of
                 Inl e \<Rightarrow> Inl e
               | Inr peak \<Rightarrow> Inr (rows, peak)))"

text \<open>
  The response of the forecast service as far as the script reads it:
  \<open>data.get("timezone_offset", 0)\<close> and \<open>data.get("hourly", [])[:24]\<close>.
\<close>

record forecast_data =
  timezone_offset :: "int option"
  hourly_list :: "hourly_reading list option"

definition analyse :: "forecast_data \<Rightarrow> error + (row list \<times> row)" where
  "analyse data =
     (let tz_offset = (case timezone_offset data of None \<Rightarrow> 0 | Some z \<Rightarrow> z);
          hourly = take 24 (case hourly_list data of None \<Rightarrow> [] | Some hs \<Rightarrow> hs)
      in process_forecast tz_offset hourly)"

text \<open>
  A reading the loop body accepts: it has a temperature and a timestamp, the local time
  is one \<open>utcfromtimestamp\<close> can represent, the square of its temperature is within
  the range of doubles, and its humidity, when present, is a percentage from 0 to 100.
\<close>

definition well_formed :: "int \<Rightarrow> hourly_reading \<Rightarrow> bool" where
  "well_formed tz_offset h =
     (case (h_temp h, h_dt h) of
        (Some T, Some d) \<Rightarrow>
          utcfromtimestamp_ok (d + tz_offset) \<and> \<bar>T\<bar> < 2 ^ 512
          \<and> (case h_humidity h of None \<Rightarrow> True | Some x \<Rightarrow> 0 \<le> x \<and> x \<le> 100)
      | _ \<Rightarrow> False)"

text \<open>The index of the first row whose heat index is the greatest.\<close>

definition first_peak_index :: "row list \<Rightarrow> nat \<Rightarrow> bool" where
  "first_peak_index rows k =
     (k < length rows
      \<and> list_all (\<lambda>r. hi_f r \<le> hi_f (rows ! k)) rows
      \<and> list_all (\<lambda>r. hi_f r < hi_f (rows ! k)) (take k rows))"

subsection \<open>Safe windows\<close>

datatype index_error = IndexError

definition is_safe :: "row \<Rightarrow> bool" where
  \<comment> \<open>\<open>rw["risk"] in ("Low", "Moderate")\<close>\<close>
  "is_safe rw = (risk rw = Low \<or> risk rw = Moderate)"

definition good_idxs :: "row list \<Rightarrow> nat list" where
  "good_idxs rows = map fst (filter (\<lambda>(i, rw). is_safe rw) (enumerate 0 rows))"

text \<open>
  The inner loop: while the next good index is the successor of \<open>end_i\<close>, move on to it.
  It returns the position reached in \<open>good\<close> and the last index of the run.
\<close>

function extend_run :: "nat list \<Rightarrow> nat \<Rightarrow> nat \<Rightarrow> nat \<times> nat" where
  "extend_run good i end_i =
     (if i + 1 < length good \<and> good ! (i + 1) = end_i + 1
      then extend_run good (i + 1) (good ! (i + 1))
      else (i, end_i))"
  by pat_completeness auto
termination
  by (relation "measure (\<lambda>(good, i, end_i). length good - i)") auto

declare extend_run.simps [simp del]

lemma extend_run_position: "i \<le> fst (extend_run good i end_i)"
proof (induction good i end_i rule: extend_run.induct)
  case (1 good i end_i)
  show ?case
  proof (cases "i + 1 < length good \<and> good ! (i + 1) = end_i + 1")
    case True
    have "extend_run good i end_i = extend_run good (i + 1) (good ! (i + 1))"
      by (subst extend_run.simps) (simp only: if_P [OF True])
    moreover have "i + 1 \<le> fst (extend_run good (i + 1) (good ! (i + 1)))"
      using True by (intro "1.IH") simp_all
    ultimately show ?thesis by simp
  next
    case False
    have "extend_run good i end_i = (i, end_i)"
      by (subst extend_run.simps) (simp only: if_not_P [OF False])
    then show ?thesis by simp
  qed
qed

text \<open>
  The outer loop. \<open>rows[start_i]\<close> and \<open>rows[end_i]\<close> raise IndexError out of range.
\<close>

function window_loop ::
  "row list \<Rightarrow> nat list \<Rightarrow> nat \<Rightarrow> (int \<times> int) list \<Rightarrow> index_error + (int \<times> int) list" where
  "window_loop rows good i windows =
     (if i < length good then
        (let start_i = good ! i;
             p = extend_run good i start_i;
             end_i = snd p
         in if start_i < length rows \<and> end_i < length rows
            then window_loop rows good (fst p + 1)
                   (windows @ [(ts (rows ! start_i), ts (rows ! end_i))])
            else Inl IndexError)
      else Inr windows)"
  by pat_completeness auto
termination
proof (relation "measure (\<lambda>(rows, good, i, windows). length good - i)")
  show "wf (measure (\<lambda>(rows, good, i, windows). length good - i))" by simp
next
  fix rows :: "row list" and good :: "nat list" and i :: nat and windows :: "(int \<times> int) list"
    and x xa xb
  assume "i < length good" and "xa = extend_run good i x"
  then show "((rows, good, fst xa + 1, windows @ [(ts (rows ! x), ts (rows ! xb))]),
              rows, good, i, windows)
             \<in> measure (\<lambda>(rows, good, i, windows). length good - i)"
    using extend_run_position [of i good x] by simp
qed

declare window_loop.simps [simp del]

definition merge_safe_windows :: "row list \<Rightarrow> index_error + (int \<times> int) list" where
  "merge_safe_windows rows = window_loop rows (good_idxs rows) 0 []"

text \<open>
  The windows as the specification words them: a run starts at a safe row and takes the
  safe rows that follow it without a gap; the search goes on behind the run. Each run
  gives the window from its first to its last timestamp.
\<close>

function safe_runs :: "row list \<Rightarrow> row list list" where
  "safe_runs [] = []"
| "safe_runs (r # rs) =
     (if is_safe r then (r # takeWhile is_safe rs) # safe_runs (dropWhile is_safe rs)
      else safe_runs rs)"
  by pat_completeness auto
termination
  by (relation "measure length") (auto simp: length_dropWhile_le less_Suc_eq_le)

definition window_of_run :: "row list \<Rightarrow> int \<times> int" where
  "window_of_run run = (ts (hd run), ts (last run))"

definition overlap :: "int \<times> int \<Rightarrow> int \<times> int \<Rightarrow> bool" where
  \<comment> \<open>two closed intervals share a point\<close>
  "overlap v w = (max (fst v) (fst w) \<le> min (snd v) (snd w))"

text \<open>
  The nested loop read on the list of good indices alone: \<open>span_run\<close> follows the
  successors of \<open>end_i\<close> and \<open>group_runs\<close> collects the index pairs. They serve the
  proofs that relate the loop to \<open>safe_runs\<close>.
\<close>

definition good_from :: "nat \<Rightarrow> row list \<Rightarrow> nat list" where
  "good_from k rows = map fst (filter (\<lambda>(i, rw). is_safe rw) (enumerate k rows))"

fun span_run :: "nat \<Rightarrow> nat list \<Rightarrow> nat \<times> nat list" where
  "span_run e [] = (e, [])"
| "span_run e (g # gs) = (if g = e + 1 then span_run g gs else (e, g # gs))"

lemma span_run_length: "length (snd (span_run e gs)) \<le> length gs"
  by (induction gs arbitrary: e) (auto intro: le_SucI)

function group_runs :: "nat list \<Rightarrow> (nat \<times> nat) list" where
  "group_runs [] = []"
| "group_runs (g # gs) = (g, fst (span_run g gs)) # group_runs (snd (span_run g gs))"
  by pat_completeness auto
termination
  by (relation "measure length") (auto simp: span_run_length less_Suc_eq_le)

definition sample_row :: "int \<Rightarrow> risk \<Rightarrow> row" where
  "sample_row t r =
     \<lparr>ts = t, temp_f = 0, rh = 0, uvi = 0, hi_f = 0, risk = r, emoji = [], hour = []\<rparr>"

subsection \<open>Hydration schedule (hydration_schedule)\<close>

function hydration_loop :: "int \<Rightarrow> int \<Rightarrow> int \<Rightarrow> (int \<times> int) list \<Rightarrow> (int \<times> int) list" where
  "hydration_loop total_minutes ml_per_20 t schedule =
     (if t \<le> total_minutes
      then hydration_loop total_minutes ml_per_20 (t + 20) (schedule @ [(t, ml_per_20)])
      else schedule)"
  by pat_completeness auto
termination
  by (relation "measure (\<lambda>(total_minutes, ml_per_20, t, schedule). nat (total_minutes + 1 - t))") auto

declare hydration_loop.simps [simp del]

definition hydration_schedule :: "int \<Rightarrow> int \<Rightarrow> (int \<times> int) list" where
  "hydration_schedule total_minutes ml_per_20 = hydration_loop total_minutes ml_per_20 20 []"

subsection \<open>Role rules (ROLE_RULES, adjust_rules_for_risk)\<close>

record role_rule =
  work :: int
  rest :: int
  ml_per_20 :: int
  note_text :: string  \<comment> \<open>the key \<open>note\<close>\<close>

definition student_athlete :: string where
  \<comment> \<open>the dash between 13 and 18 is U+2013\<close>
  "student_athlete = ''Student athlete (13'' @ [CHR 0xE2, CHR 0x80, CHR 0x93] @ ''18)''"

definition ROLE_RULES :: "string \<rightharpoonup> role_rule" where
  "ROLE_RULES = map_of
     [(student_athlete,
         \<lparr>work = 45, rest = 15, ml_per_20 = 250, note_text = ''Light-colored gear; buddy checks.''\<rparr>),
      (''Construction'',
         \<lparr>work = 40, rest = 20, ml_per_20 = 300, note_text = ''Use shade canopies; rotate tasks.''\<rparr>),
      (''Delivery / courier'',
         \<lparr>work = 50, rest = 10, ml_per_20 = 250,
          note_text = ''Cold packs in bag; short stops in shade.''\<rparr>),
      (''Elderly outdoors'',
         \<lparr>work = 30, rest = 30, ml_per_20 = 200, note_text = ''Frequent sips; caregiver check.''\<rparr>)]"

definition adjust_rules_for_risk :: "string \<Rightarrow> risk \<Rightarrow> error + role_rule" where
  "adjust_rules_for_risk role peak_risk =
     (case ROLE_RULES role of
        None \<Rightarrow> Inl KeyError
      | Some base \<Rightarrow>
         (let (w, r) =
                (if peak_risk = High then (max 20 (work base - 10), rest base + 10)
                 else if peak_risk = Extreme then (max 15 (work base - 15), rest base + 15)
                 else (work base, rest base))
          in Inr (base\<lparr>work := w, rest := r\<rparr>)))"

text \<open>
  What the specification asks of the row \<open>r\<close> made from a reading \<open>h\<close>, in terms of
  the reading's own fields: the row carries the reading's timestamp, temperature,
  humidity and UV index (an absent humidity or UV index counts as 0); its heat index is
  the value of \<open>heat_index_f\<close> at the reading's temperature and humidity, plus 3 when
  the reading's UV index is at least 8 and plus nothing otherwise; its risk is that of the
  bumped heat index; its label is the hour of the local time.
\<close>

definition annotated_as :: "int \<Rightarrow> hourly_reading \<Rightarrow> row \<Rightarrow> bool" where
  "annotated_as tz_offset h r =
     (h_dt h = Some (ts r) \<and> h_temp h = Some (temp_f r)
      \<and> (h_humidity h = Some (rh r) \<or> h_humidity h = None \<and> rh r = 0)
      \<and> (h_uvi h = Some (uvi r) \<or> h_uvi h = None \<and> uvi r = 0)
      \<and> (case h_uvi h of
            Some u \<Rightarrow> if 8 \<le> u
              then heat_index_f (temp_f r) (rh r) = Inr (hi_f r - 3)
              else heat_index_f (temp_f r) (rh r) = Inr (hi_f r)
          | None \<Rightarrow> heat_index_f (temp_f r) (rh r) = Inr (hi_f r))
      \<and> risk_from_hi (hi_f r) = (risk r, emoji r)
      \<and> fmt_hour (ts r) tz_offset = Inr (hour r))"

section \<open>Properties\<close>

subsection \<open>Heat index\<close>

lemma math_sqrt_guarded:
  "80 \<le> T \<Longrightarrow> T \<le> 112 \<Longrightarrow> math_sqrt ((17 - \<bar>T - 95\<bar>) / 17) = Inr (sqrt ((17 - \<bar>T - 95\<bar>) / 17))"
  unfolding math_sqrt_def by (simp add: abs_if)

lemma heat_index_f_overflow:
  assumes "2 ^ 512 \<le> \<bar>T\<bar> \<or> 2 ^ 512 \<le> \<bar>RH\<bar>"
  shows "heat_index_f T RH = Inl OverflowError"
proof (cases "2 ^ 512 \<le> \<bar>T\<bar>")
  case True
  then have "float_pow2 T = Inl OverflowError"
    unfolding float_pow2_def by (simp only: if_True)
  then show ?thesis
    unfolding heat_index_f_def Let_def by (simp only: sum.case)
next
  case False
  with assms have big: "2 ^ 512 \<le> \<bar>RH\<bar>" by blast
  from False have "float_pow2 T = Inr (T ^ 2)"
    unfolding float_pow2_def by (simp only: if_False)
  moreover from big have "float_pow2 RH = Inl OverflowError"
    unfolding float_pow2_def by (simp only: if_True)
  ultimately show ?thesis
    unfolding heat_index_f_def Let_def by (simp only: sum.case)
qed

lemma heat_index_f_value:
  assumes T: "\<bar>T\<bar> < 2 ^ 512" and RH: "\<bar>RH\<bar> < 2 ^ 512"
  shows "heat_index_f T RH = Inr (noaa_heat_index T RH)"
proof -
  have pT: "float_pow2 T = Inr (T ^ 2)" and pRH: "float_pow2 RH = Inr (RH ^ 2)"
    using T RH unfolding float_pow2_def by (simp_all only: not_le [symmetric] if_False)
  show ?thesis
  proof (cases "RH < 13 \<and> 80 \<le> T \<and> T \<le> 112")
    case low: True
    then have s: "math_sqrt ((17 - \<bar>T - 95\<bar>) / 17) = Inr (sqrt ((17 - \<bar>T - 95\<bar>) / 17))"
      by (simp add: math_sqrt_guarded)
    from low have n: "\<not> (RH > 85 \<and> 80 \<le> T \<and> T \<le> 87)" by simp
    show ?thesis
      unfolding heat_index_f_def noaa_heat_index_def rothfusz_polynomial_def
        low_humidity_case_def high_humidity_case_def Let_def pT pRH
      by (simp only: if_P [OF low] if_not_P [OF n] s sum.case add_0_right)
  next
    case low: False
    show ?thesis
    proof (cases "RH > 85 \<and> 80 \<le> T \<and> T \<le> 87")
      case high: True
      show ?thesis
        unfolding heat_index_f_def noaa_heat_index_def rothfusz_polynomial_def
          low_humidity_case_def high_humidity_case_def Let_def pT pRH
        by (simp only: if_P [OF high] if_not_P [OF low] diff_zero sum.case)
    next
      case high: False
      show ?thesis
        unfolding heat_index_f_def noaa_heat_index_def rothfusz_polynomial_def
          low_humidity_case_def high_humidity_case_def Let_def pT pRH
        by (simp only: if_not_P [OF high] if_not_P [OF low] diff_zero add_0_right sum.case)
    qed
  qed
qed





subsection \<open>Risk category\<close>

text \<open>
  C5: \<open>risk_from_hi\<close> is total and a step function of the heat index: Extreme from
  125, High from 104, Moderate from 90, Low below; so a greater heat index never gets a
  lower category in the order Low, Moderate, High, Extreme.
\<close>

theorem risk_from_hi_step:
  "(fst (risk_from_hi h) = Extreme \<longleftrightarrow> 125 \<le> h)
   \<and> (fst (risk_from_hi h) = High \<longleftrightarrow> 104 \<le> h \<and> h < 125)
   \<and> (fst (risk_from_hi h) = Moderate \<longleftrightarrow> 90 \<le> h \<and> h < 104)
   \<and> (fst (risk_from_hi h) = Low \<longleftrightarrow> h < 90)
   \<and> (h1 < h2 \<longrightarrow> risk_rank (fst (risk_from_hi h1)) \<le> risk_rank (fst (risk_from_hi h2)))"
  by (simp add: risk_from_hi_def)

theorem risk_from_hi_step_witness:
  "fst (risk_from_hi 130) = Extreme \<and> (95::real) < 110
   \<and> fst (risk_from_hi 95) = Moderate \<and> fst (risk_from_hi 110) = High
   \<and> risk_rank (fst (risk_from_hi 95)) \<le> risk_rank (fst (risk_from_hi 110))"
  using risk_from_hi_step [of 130 95 110] by (simp add: risk_from_hi_def)

subsection \<open>The low-humidity correction\<close>




text \<open>
  C10, as stated, fails: \<open>heat_index_f\<close> is not total, since at \<open>T = 10 ^ 200\<close>
  the power \<open>T_f ** 2\<close> raises OverflowError.
\<close>

theorem heat_index_f_overflow_not_total:
  "heat_index_f (10 ^ 200) 50 = Inl OverflowError"
  by (rule heat_index_f_overflow) simp

text \<open>
  C10, amended: \<open>heat_index_f\<close> never raises a math domain error; under the guard of
  the low-humidity branch \<open>\<bar>T - 95\<bar> \<le> 17\<close>, so the argument of the square root is
  not negative and \<open>math.sqrt\<close> does not raise. It returns a value for every temperature
  and humidity of magnitude below \<open>2 ^ 512\<close>, and raises OverflowError when one of
  them has magnitude \<open>2 ^ 512\<close> or more.
\<close>

theorem heat_index_f_total:
  "heat_index_f T RH \<noteq> Inl MathDomainError
   \<and> (\<bar>T\<bar> < 2 ^ 512 \<and> \<bar>RH\<bar> < 2 ^ 512 \<longrightarrow> (\<exists>v. heat_index_f T RH = Inr v))
   \<and> (2 ^ 512 \<le> \<bar>T\<bar> \<or> 2 ^ 512 \<le> \<bar>RH\<bar> \<longrightarrow> heat_index_f T RH = Inl OverflowError)
   \<and> (RH < 13 \<and> 80 \<le> T \<and> T \<le> 112 \<longrightarrow>
        \<bar>T - 95\<bar> \<le> 17 \<and> 0 \<le> (17 - \<bar>T - 95\<bar>) / 17
        \<and> math_sqrt ((17 - \<bar>T - 95\<bar>) / 17) \<noteq> Inl MathDomainError)"
proof -
  have sq: "math_sqrt ((17 - \<bar>T - 95\<bar>) / 17) \<noteq> Inl MathDomainError" if "80 \<le> T" "T \<le> 112"
    using math_sqrt_guarded [OF that] by simp
  have arg: "\<bar>T - 95\<bar> \<le> 17 \<and> 0 \<le> (17 - \<bar>T - 95\<bar>) / 17" if "80 \<le> T" "T \<le> 112"
    using that by (simp add: abs_if)
  have val: "\<exists>v. heat_index_f T RH = Inr v" if "\<bar>T\<bar> < 2 ^ 512" "\<bar>RH\<bar> < 2 ^ 512"
    using heat_index_f_value [OF that] by blast
  have ovf: "heat_index_f T RH = Inl OverflowError"
    if "2 ^ 512 \<le> \<bar>T\<bar> \<or> 2 ^ 512 \<le> \<bar>RH\<bar>"
    using that by (rule heat_index_f_overflow)
  have nd: "heat_index_f T RH \<noteq> Inl MathDomainError"
  proof (cases "2 ^ 512 \<le> \<bar>T\<bar> \<or> 2 ^ 512 \<le> \<bar>RH\<bar>")
    case True
    from ovf [OF this] show ?thesis by simp
  next
    case False
    then have "\<bar>T\<bar> < 2 ^ 512" and "\<bar>RH\<bar> < 2 ^ 512" by (simp_all only: de_Morgan_disj not_le)
    from val [OF this] show ?thesis by auto
  qed
  show ?thesis using sq arg val ovf nd by blast
qed

theorem heat_index_f_total_witness:
  "(\<exists>v. heat_index_f 80 5 = Inr v) \<and> \<bar>80 :: real\<bar> < 2 ^ 512 \<and> \<bar>5 :: real\<bar> < 2 ^ 512
   \<and> (5::real) < 13 \<and> (80::real) \<le> 112
   \<and> \<bar>80 - 95\<bar> \<le> (17::real)
   \<and> math_sqrt ((17 - \<bar>80 - 95\<bar>) / 17) \<noteq> Inl MathDomainError
   \<and> 2 ^ 512 \<le> \<bar>- (2 ^ 600) :: real\<bar> \<and> heat_index_f 80 (- (2 ^ 600)) = Inl OverflowError"
proof -
  have a: "\<bar>80 :: real\<bar> < 2 ^ 512 \<and> \<bar>5 :: real\<bar> < 2 ^ 512" by simp
  have b: "(5::real) < 13 \<and> (80::real) \<le> 80 \<and> (80::real) \<le> 112" by simp
  have c: "2 ^ 512 \<le> \<bar>- (2 ^ 600) :: real\<bar>" by simp
  from heat_index_f_total [of 80 5] a b have
    "(\<exists>v. heat_index_f 80 5 = Inr v)
     \<and> \<bar>80 - 95\<bar> \<le> (17::real)
     \<and> math_sqrt ((17 - \<bar>80 - 95\<bar>) / 17) \<noteq> Inl MathDomainError"
    by blast
  moreover from heat_index_f_total [of 80 "- (2 ^ 600)"] c
  have "heat_index_f 80 (- (2 ^ 600)) = Inl OverflowError" by blast
  ultimately show ?thesis using a b c by blast
qed

subsection \<open>Hydration schedule, empty forecast and role rules\<close>

lemma hydration_loop_offsets:
  "hydration_loop D A t acc =
     acc @ map (\<lambda>j. (t + 20 * int j, A)) [0..<nat ((D - t) div 20 + 1)]"
proof (induction D A t acc rule: hydration_loop.induct)
  case (1 D A t acc)
  show ?case
  proof (cases "t \<le> D")
    case True
    let ?n = "nat ((D - (t + 20)) div 20 + 1)"
    have n: "nat ((D - t) div 20 + 1) = Suc ?n"
    proof -
      have "(D - (t + 20)) div 20 = (D - t) div 20 - 1" by simp
      moreover have "0 \<le> (D - t) div 20" using True by simp
      ultimately show ?thesis by simp
    qed
    have "hydration_loop D A t acc = hydration_loop D A (t + 20) (acc @ [(t, A)])"
      using True by (subst hydration_loop.simps) simp
    also have "\<dots> = (acc @ [(t, A)]) @ map (\<lambda>j. (t + 20 + 20 * int j, A)) [0..<?n]"
      using True by (rule "1.IH")
    also have "map (\<lambda>j. (t + 20 + 20 * int j, A)) [0..<?n]
               = map (\<lambda>j. (t + 20 * int j, A)) (map Suc [0..<?n])"
      by (simp add: algebra_simps)
    also have "(acc @ [(t, A)]) @ map (\<lambda>j. (t + 20 * int j, A)) (map Suc [0..<?n])
               = acc @ map (\<lambda>j. (t + 20 * int j, A)) (0 # map Suc [0..<?n])"
      by simp
    also have "0 # map Suc [0..<?n] = [0..<Suc ?n]"
      by (simp add: map_Suc_upt upt_conv_Cons del: upt_Suc)
    finally show ?thesis by (simp only: n)
  next
    case False
    then have "(D - t) div 20 + 1 \<le> 0" by simp
    then have "nat ((D - t) div 20 + 1) = 0" by simp
    moreover have "hydration_loop D A t acc = acc"
      using False by (subst hydration_loop.simps) simp
    ultimately show ?thesis by simp
  qed
qed

lemma hydration_schedule_offsets:
  "hydration_schedule D A = map (\<lambda>j. (20 * (int j + 1), A)) [0..<nat (D div 20)]"
proof -
  have "(D - 20) div 20 + 1 = D div 20" by simp
  then show ?thesis
    by (simp add: hydration_schedule_def hydration_loop_offsets algebra_simps)
qed

text \<open>
  C3: for an empty \<open>hourly\<close> (also after the cut to 24 hours, and when the key is
  absent) the script takes the branch that reports "No hourly forecast returned.": no rows,
  no peak, and no other exception.
\<close>


theorem process_forecast_empty:
  "process_forecast tz [] = Inl NoHourlyForecast
   \<and> analyse \<lparr>timezone_offset = z, hourly_list = Some []\<rparr> = Inl NoHourlyForecast
   \<and> analyse \<lparr>timezone_offset = z, hourly_list = None\<rparr> = Inl NoHourlyForecast"
  by (simp add: process_forecast_def analyse_def)

text \<open>
  C7: for every role of \<open>ROLE_RULES\<close>, a High peak gives work \<open>max 20 (work - 10)\<close>
  and rest \<open>rest + 10\<close>, an Extreme peak gives work \<open>max 15 (work - 15)\<close> and rest
  \<open>rest + 15\<close>, Low and Moderate leave the rule as it is, and the other fields are never
  changed; Construction at Extreme gives 25 minutes of work and 35 of rest from the
  baseline 40 and 20.
\<close>


theorem adjust_rules_for_risk_table:
  assumes "ROLE_RULES role = Some base"
  shows "adjust_rules_for_risk role High
           = Inr (base\<lparr>work := max 20 (work base - 10), rest := rest base + 10\<rparr>)
    \<and> adjust_rules_for_risk role Extreme
           = Inr (base\<lparr>work := max 15 (work base - 15), rest := rest base + 15\<rparr>)
    \<and> adjust_rules_for_risk role Low = Inr base
    \<and> adjust_rules_for_risk role Moderate = Inr base
    \<and> (\<exists>b g. ROLE_RULES ''Construction'' = Some b \<and> work b = 40 \<and> rest b = 20
          \<and> adjust_rules_for_risk ''Construction'' Extreme = Inr g
          \<and> work g = 25 \<and> rest g = 35)"
  using assms by (simp add: adjust_rules_for_risk_def ROLE_RULES_def student_athlete_def)

theorem adjust_rules_for_risk_table_witness:
  "ROLE_RULES ''Elderly outdoors''
     = Some \<lparr>work = 30, rest = 30, ml_per_20 = 200, note_text = ''Frequent sips; caregiver check.''\<rparr>
   \<and> adjust_rules_for_risk ''Elderly outdoors'' High
     = Inr \<lparr>work = 20, rest = 40, ml_per_20 = 200, note_text = ''Frequent sips; caregiver check.''\<rparr>
   \<and> adjust_rules_for_risk ''Elderly outdoors'' Extreme
     = Inr \<lparr>work = 15, rest = 45, ml_per_20 = 200, note_text = ''Frequent sips; caregiver check.''\<rparr>"
proof -
  have r: "ROLE_RULES ''Elderly outdoors''
     = Some \<lparr>work = 30, rest = 30, ml_per_20 = 200, note_text = ''Frequent sips; caregiver check.''\<rparr>"
    by (simp add: ROLE_RULES_def student_athlete_def)
  show ?thesis using adjust_rules_for_risk_table [OF r] r by simp
qed

text \<open>
  C8: for a duration \<open>D \<ge> 0\<close> and an amount \<open>A\<close> the schedule is
  \<open>(20, A), (40, A), \<dots>\<close> up to the greatest multiple of 20 that is at most \<open>D\<close>,
  which is \<open>20 * (D div 20)\<close>; it is empty when \<open>D < 20\<close>; 90 minutes give four
  reminders and 15 minutes none.
\<close>


theorem hydration_schedule_multiples:
  assumes "0 \<le> D"
  shows "hydration_schedule D A = map (\<lambda>j. (20 * (int j + 1), A)) [0..<nat (D div 20)]
    \<and> 20 * (D div 20) \<le> D \<and> D < 20 * (D div 20) + 20
    \<and> (20 \<le> D \<longrightarrow> last (hydration_schedule D A) = (20 * (D div 20), A))
    \<and> (D < 20 \<longrightarrow> hydration_schedule D A = [])
    \<and> hydration_schedule 90 250 = [(20, 250), (40, 250), (60, 250), (80, 250)]
    \<and> hydration_schedule 15 250 = []"
proof -
  have last: "last (hydration_schedule D A) = (20 * (D div 20), A)" if "20 \<le> D"
  proof -
    define m where "m = nat (D div 20 - 1)"
    from that have "1 \<le> D div 20" by simp
    then have m: "nat (D div 20) = Suc m" and d: "int m + 1 = D div 20"
      by (simp_all add: m_def)
    have "last (hydration_schedule D A) = (20 * (int m + 1), A)"
      unfolding hydration_schedule_offsets m by simp
    then show ?thesis by (simp only: d)
  qed
  have short: "hydration_schedule D A = []" if "D < 20"
    using that assms by (simp add: hydration_schedule_offsets)
  have e90: "hydration_schedule 90 250 = [(20, 250), (40, 250), (60, 250), (80, 250)]"
    unfolding hydration_schedule_offsets by code_simp
  have e15: "hydration_schedule 15 250 = []"
    by (simp add: hydration_schedule_offsets)
  have bounds: "20 * (D div 20) \<le> D \<and> D < 20 * (D div 20) + 20" by presburger
  show ?thesis using last short e90 e15 bounds hydration_schedule_offsets [of D A] by blast
qed

theorem hydration_schedule_multiples_witness:
  "(0::int) \<le> 45 \<and> hydration_schedule 45 300 = [(20, 300), (40, 300)]
   \<and> last (hydration_schedule 45 300) = (40, 300)
   \<and> (0::int) \<le> 9 \<and> hydration_schedule 9 300 = []"
proof -
  have a: "(0::int) \<le> 45" and b: "(0::int) \<le> 9" by simp_all
  have l: "map (\<lambda>j. (20 * (int j + 1), 300::int)) [0..<nat (45 div 20)] = [(20, 300), (40, 300)]"
    by code_simp
  from hydration_schedule_multiples [OF a, of 300] hydration_schedule_multiples [OF b, of 300] l
  show ?thesis by simp
qed

text \<open>
  C9, as stated, fails: \<open>hydration_schedule\<close> checks nothing, and for the negative
  duration \<open>-5\<close> it returns the empty schedule as an ordinary result.
\<close>


theorem hydration_schedule_negative_returns:
  "hydration_schedule (- 5) 250 = []"
  by (simp add: hydration_schedule_offsets)

text \<open>
  C9, amended: for every negative duration \<open>hydration_schedule\<close> returns the empty
  schedule; the loop body never runs and nothing is raised.
\<close>


theorem hydration_schedule_no_validation:
  assumes "D < 0"
  shows "hydration_schedule D A = []"
proof -
  from assms have "D div 20 < 0" by simp
  then show ?thesis by (simp add: hydration_schedule_offsets)
qed

theorem hydration_schedule_no_validation_witness:
  "(- 30::int) < 0 \<and> hydration_schedule (- 30) 200 = []"
  using hydration_schedule_no_validation [of "- 30" 200] by simp

subsection \<open>Forecast rows and the peak\<close>

lemma annotate_well_formed:
  assumes "well_formed tz h"
  shows "\<exists>r. annotate tz h = Inr r \<and> annotated_as tz h r"
proof -
  from assms obtain T d where T: "h_temp h = Some T" and d: "h_dt h = Some d"
    and ok: "utcfromtimestamp_ok (d + tz)" and bT: "\<bar>T\<bar> < 2 ^ 512"
    and bH: "case h_humidity h of None \<Rightarrow> True | Some x \<Rightarrow> 0 \<le> x \<and> x \<le> 100"
    by (auto simp: well_formed_def split: option.splits)
  from bH have "0 \<le> get_humidity h \<and> get_humidity h \<le> 100"
    by (cases "h_humidity h") (simp_all add: get_humidity_def)
  then have bRH: "\<bar>get_humidity h\<bar> < 2 ^ 512" by simp
  note hv = heat_index_f_value [OF bT bRH]
  define HI where
    "HI = noaa_heat_index T (get_humidity h) + (if get_uvi h \<ge> 8 then 3 else 0)"
  define r where
    "r = \<lparr>ts = d, temp_f = T, rh = get_humidity h, uvi = get_uvi h, hi_f = HI,
          risk = fst (risk_from_hi HI), emoji = snd (risk_from_hi HI),
          hour = strftime_I_p (hour_of_day (d + tz))\<rparr>"
  have run: "annotate tz h = Inr r"
    by (simp add: annotate_def T d ok fmt_hour_def hv Let_def r_def HI_def split: prod.splits)
  have sel: "ts r = d" "temp_f r = T" "rh r = get_humidity h" "uvi r = get_uvi h" "hi_f r = HI"
    "risk r = fst (risk_from_hi HI)" "emoji r = snd (risk_from_hi HI)"
    "hour r = strftime_I_p (hour_of_day (d + tz))"
    by (simp_all add: r_def)
  have hum: "h_humidity h = Some (rh r) \<or> h_humidity h = None \<and> rh r = 0"
    by (cases "h_humidity h") (simp_all add: sel get_humidity_def)
  have uv: "h_uvi h = Some (uvi r) \<or> h_uvi h = None \<and> uvi r = 0"
    by (cases "h_uvi h") (simp_all add: sel get_uvi_def)
  have bump: "case h_uvi h of
            Some u \<Rightarrow> if 8 \<le> u
              then heat_index_f (temp_f r) (rh r) = Inr (hi_f r - 3)
              else heat_index_f (temp_f r) (rh r) = Inr (hi_f r)
          | None \<Rightarrow> heat_index_f (temp_f r) (rh r) = Inr (hi_f r)"
    by (cases "h_uvi h") (simp_all add: sel hv HI_def get_uvi_def)
  have "annotated_as tz h r"
    unfolding annotated_as_def using hum uv bump
    by (simp add: sel T d ok fmt_hour_def)
  with run show ?thesis by blast
qed

lemma forecast_rows_well_formed:
  assumes "list_all (well_formed tz) hs"
  shows "\<exists>rs. forecast_rows tz acc hs = Inr (acc @ rs) \<and> list_all2 (annotated_as tz) hs rs"
  using assms
proof (induction hs arbitrary: acc)
  case Nil
  then show ?case by simp
next
  case (Cons h hs)
  from Cons.prems obtain r where r: "annotate tz h = Inr r" "annotated_as tz h r"
    using annotate_well_formed by auto
  from Cons.prems have "list_all (well_formed tz) hs" by simp
  from Cons.IH [OF this, of "acc @ [r]"] obtain rs
    where rs: "forecast_rows tz (acc @ [r]) hs = Inr ((acc @ [r]) @ rs)"
      "list_all2 (annotated_as tz) hs rs" by blast
  have "forecast_rows tz acc (h # hs) = Inr (acc @ (r # rs))"
    using r rs by simp
  moreover have "list_all2 (annotated_as tz) (h # hs) (r # rs)"
    using r rs by simp
  ultimately show ?case by blast
qed

lemma max_loop_snoc:
  "max_loop key b (xs @ [x]) =
     (if key x > key (max_loop key b xs) then x else max_loop key b xs)"
  by (induction xs arbitrary: b) simp_all

lemma max_loop_first:
  "\<exists>k \<le> length xs. max_loop key b xs = (b # xs) ! k
     \<and> (\<forall>j \<le> length xs. key ((b # xs) ! j) \<le> key ((b # xs) ! k))
     \<and> (\<forall>j < k. key ((b # xs) ! j) < key ((b # xs) ! k))"
proof (induction xs rule: rev_induct)
  case Nil
  show ?case by simp
next
  case (snoc x xs)
  then obtain k where k: "k \<le> length xs" "max_loop key b xs = (b # xs) ! k"
    and ge: "\<forall>j \<le> length xs. key ((b # xs) ! j) \<le> key ((b # xs) ! k)"
    and lt: "\<forall>j < k. key ((b # xs) ! j) < key ((b # xs) ! k)"
    by blast
  let ?ys = "b # xs @ [x]"
  have old: "?ys ! j = (b # xs) ! j" if "j \<le> length xs" for j
    using that by (metis append_Cons le_imp_less_Suc length_Cons nth_append)
  have new: "?ys ! Suc (length xs) = x"
    by (metis append_Cons length_Cons nth_append_length)
  show ?case
  proof (cases "key x > key ((b # xs) ! k)")
    case True
    have "max_loop key b (xs @ [x]) = ?ys ! Suc (length xs)"
      using True k new by (simp add: max_loop_snoc)
    moreover have "\<forall>j \<le> length (xs @ [x]). key (?ys ! j) \<le> key (?ys ! Suc (length xs))"
    proof (intro allI impI)
      fix j assume "j \<le> length (xs @ [x])"
      then consider "j \<le> length xs" | "j = Suc (length xs)" by fastforce
      then show "key (?ys ! j) \<le> key (?ys ! Suc (length xs))"
      proof cases
        case 1
        then have "key (?ys ! j) \<le> key ((b # xs) ! k)" using ge old by simp
        then show ?thesis using True new by simp
      next
        case 2
        then show ?thesis by simp
      qed
    qed
    moreover have "\<forall>j < Suc (length xs). key (?ys ! j) < key (?ys ! Suc (length xs))"
    proof (intro allI impI)
      fix j assume "j < Suc (length xs)"
      then have j: "j \<le> length xs" by simp
      then have "key (?ys ! j) \<le> key ((b # xs) ! k)" using ge old by simp
      then show "key (?ys ! j) < key (?ys ! Suc (length xs))" using True new by simp
    qed
    ultimately show ?thesis
      by (intro exI [of _ "Suc (length xs)"]) simp
  next
    case False
    have "max_loop key b (xs @ [x]) = ?ys ! k"
      using False k old by (simp add: max_loop_snoc)
    moreover have "\<forall>j \<le> length (xs @ [x]). key (?ys ! j) \<le> key (?ys ! k)"
    proof (intro allI impI)
      fix j assume "j \<le> length (xs @ [x])"
      then consider "j \<le> length xs" | "j = Suc (length xs)" by fastforce
      then show "key (?ys ! j) \<le> key (?ys ! k)"
      proof cases
        case 1
        then show ?thesis using ge old k by simp
      next
        case 2
        then show ?thesis using False new old k by simp
      qed
    qed
    moreover have "\<forall>j < k. key (?ys ! j) < key (?ys ! k)"
    proof (intro allI impI)
      fix j assume jk: "j < k"
      with k have "j \<le> length xs" by simp
      from old [OF this] old [OF k(1)] lt jk show "key (?ys ! j) < key (?ys ! k)"
        by metis
    qed
    ultimately show ?thesis using k
      by (intro exI [of _ k]) simp
  qed
qed

lemma py_max_first_peak:
  assumes "rows \<noteq> []"
  shows "\<exists>k. py_max hi_f rows = Inr (rows ! k) \<and> first_peak_index rows k"
proof -
  from assms obtain b xs where rows: "rows = b # xs" by (cases rows) auto
  from max_loop_first [of xs hi_f b] obtain k where k: "k \<le> length xs"
    and m: "max_loop hi_f b xs = rows ! k"
    and ge: "\<forall>j \<le> length xs. hi_f (rows ! j) \<le> hi_f (rows ! k)"
    and lt: "\<forall>j < k. hi_f (rows ! j) < hi_f (rows ! k)"
    unfolding rows by blast
  have "list_all (\<lambda>r. hi_f r \<le> hi_f (rows ! k)) rows"
    using ge by (simp add: list_all_length rows less_Suc_eq_le)
  moreover have "list_all (\<lambda>r. hi_f r < hi_f (rows ! k)) (take k rows)"
    using lt k by (simp add: list_all_length rows)
  moreover have "k < length rows" using k by (simp add: rows)
  ultimately have "first_peak_index rows k" by (simp add: first_peak_index_def)
  moreover have "py_max hi_f rows = Inr (rows ! k)"
    using m by (simp add: py_max_def rows)
  ultimately show ?thesis by blast
qed

lemma sample_well_formed:
  "list_all (well_formed (- 25200))
     [\<lparr>h_dt = Some 1700000000, h_temp = Some 100, h_humidity = Some 50, h_uvi = Some 9\<rparr>]"
  by (simp add: well_formed_def utcfromtimestamp_ok_def)

text \<open>
  C2, as stated for every non-empty sequence of readings, fails for a reading that has
  all four fields and the timestamp 253402300800, the first second of the year 10000:
  \<open>utcfromtimestamp\<close> raises in \<open>fmt_hour\<close> and no row is returned.
\<close>

theorem process_forecast_date_out_of_range:
  "[\<lparr>h_dt = Some 253402300800, h_temp = Some 100, h_humidity = Some 50, h_uvi = Some 9\<rparr>] \<noteq> []
   \<and> process_forecast 0
       [\<lparr>h_dt = Some 253402300800, h_temp = Some 100, h_humidity = Some 50, h_uvi = Some 9\<rparr>]
     = Inl DateOutOfRange"
  by (simp add: process_forecast_def annotate_def heat_index_f_value get_humidity_def
      get_uvi_def fmt_hour_def utcfromtimestamp_ok_def Let_def split: prod.splits)

text \<open>
  C2, amended: for a non-empty list of readings, each with a temperature of magnitude
  below \<open>2 ^ 512\<close>, a timestamp whose local time is within the years 1 to 9999 and a
  humidity that is absent or from 0 to 100, the loop returns one row per reading in the
  order of the input.
  A row carries the reading's timestamp, temperature, humidity and UV index; its heat index
  is \<open>heat_index_f\<close> of the reading's temperature and humidity plus exactly 3 when the
  reading's UV index is at least 8 and plus nothing otherwise; its risk is
  \<open>risk_from_hi\<close> of that bumped heat index; and the peak is the row of greatest heat
  index, the first such row in the order of the input.
\<close>

theorem process_forecast_rows_and_peak:
  assumes "hourly \<noteq> []" and "list_all (well_formed tz) hourly"
  shows "\<exists>rows k. process_forecast tz hourly = Inr (rows, rows ! k)
           \<and> list_all2 (annotated_as tz) hourly rows
           \<and> first_peak_index rows k"
proof -
  from forecast_rows_well_formed [OF assms(2), of "[]"] obtain rows
    where rows: "forecast_rows tz [] hourly = Inr rows"
      and ann: "list_all2 (annotated_as tz) hourly rows" by auto
  from ann assms(1) have "rows \<noteq> []" by (auto simp: list_all2_Nil2)
  from py_max_first_peak [OF this] obtain k
    where k: "py_max hi_f rows = Inr (rows ! k)" "first_peak_index rows k" by blast
  have "process_forecast tz hourly = Inr (rows, rows ! k)"
    using assms(1) rows k by (simp add: process_forecast_def)
  with ann k show ?thesis by blast
qed

lemma annotated_as_sample:
  assumes a: "annotated_as (- 25200)
     \<lparr>h_dt = Some 1700000000, h_temp = Some 100, h_humidity = Some 50, h_uvi = Some 9\<rparr> r"
  shows "r = \<lparr>ts = 1700000000, temp_f = 100, rh = 50, uvi = 9, hi_f = 121.3158115,
            risk = High, emoji = orange_circle, hour = ''3PM''\<rparr>"
proof -
  have hv: "heat_index_f 100 50 = Inr 118.3158115"
    by (simp add: heat_index_f_value noaa_heat_index_def rothfusz_polynomial_def
        low_humidity_case_def high_humidity_case_def)
  from a have f: "ts r = 1700000000" "temp_f r = 100" "rh r = 50" "uvi r = 9"
    and hi: "heat_index_f (temp_f r) (rh r) = Inr (hi_f r - 3)"
    and rk: "risk_from_hi (hi_f r) = (risk r, emoji r)"
    and lb: "fmt_hour (ts r) (- 25200) = Inr (hour r)"
    by (auto simp: annotated_as_def)
  from hi have "Inr (hi_f r - 3) = (Inr 118.3158115 :: error + real)"
    by (simp only: f hv)
  then have "hi_f r - 3 = 118.3158115" by (simp only: sum.inject)
  then have h: "hi_f r = 121.3158115" by simp
  from rk have r2: "risk r = High" "emoji r = orange_circle"
    unfolding h by (simp_all add: risk_from_hi_def)
  from lb have l: "hour r = ''3PM''"
    unfolding f
    by (simp add: fmt_hour_def utcfromtimestamp_ok_def hour_of_day_def strftime_I_p_def
        digit_char_def Let_def)
  show ?thesis by (cases r) (use f h r2 l in simp)
qed

theorem process_forecast_rows_and_peak_witness:
  "[\<lparr>h_dt = Some 1700000000, h_temp = Some 100, h_humidity = Some 50, h_uvi = Some 9\<rparr>] \<noteq> []
   \<and> list_all (well_formed (- 25200))
        [\<lparr>h_dt = Some 1700000000, h_temp = Some 100, h_humidity = Some 50, h_uvi = Some 9\<rparr>]
   \<and> process_forecast (- 25200)
        [\<lparr>h_dt = Some 1700000000, h_temp = Some 100, h_humidity = Some 50, h_uvi = Some 9\<rparr>]
      = Inr ([\<lparr>ts = 1700000000, temp_f = 100, rh = 50, uvi = 9, hi_f = 121.3158115,
               risk = High, emoji = orange_circle, hour = ''3PM''\<rparr>],
             \<lparr>ts = 1700000000, temp_f = 100, rh = 50, uvi = 9, hi_f = 121.3158115,
               risk = High, emoji = orange_circle, hour = ''3PM''\<rparr>)"
proof -
  let ?h = "\<lparr>h_dt = Some 1700000000, h_temp = Some 100, h_humidity = Some 50, h_uvi = Some 9\<rparr>"
  let ?r = "\<lparr>ts = 1700000000, temp_f = 100, rh = 50, uvi = 9, hi_f = 121.3158115,
             risk = High, emoji = orange_circle, hour = ''3PM''\<rparr>"
  have ne: "[?h] \<noteq> []" by simp
  from process_forecast_rows_and_peak [OF ne sample_well_formed] obtain rows k
    where p: "process_forecast (- 25200) [?h] = Inr (rows, rows ! k)"
      and a: "list_all2 (annotated_as (- 25200)) [?h] rows"
      and f: "first_peak_index rows k" by blast
  from a obtain r where rows: "rows = [r]" and ar: "annotated_as (- 25200) ?h r"
    by (auto simp: list_all2_Cons1)
  from annotated_as_sample [OF ar] have r: "r = ?r" .
  from f have "k = 0" by (simp add: first_peak_index_def rows)
  with p rows r have "process_forecast (- 25200) [?h] = Inr ([?r], ?r)" by simp
  with ne sample_well_formed show ?thesis by blast
qed

text \<open>
  Of two hours with the same greatest heat index the earlier one is the peak, and a UV
  index of 7 leaves the heat index of the polynomial, 118.3158115, as it is.
\<close>

lemma process_forecast_tie:
  "\<exists>rows. process_forecast 0
     [\<lparr>h_dt = Some 0, h_temp = Some 70, h_humidity = Some 50, h_uvi = None\<rparr>,
      \<lparr>h_dt = Some 3600, h_temp = Some 90, h_humidity = Some 40, h_uvi = None\<rparr>,
      \<lparr>h_dt = Some 7200, h_temp = Some 90, h_humidity = Some 40, h_uvi = None\<rparr>]
   = Inr (rows, rows ! 1) \<and> ts (rows ! 1) = 3600 \<and> hi_f (rows ! 1) = hi_f (rows ! 2)"
  by (simp add: process_forecast_def annotate_def heat_index_f_value noaa_heat_index_def
      rothfusz_polynomial_def low_humidity_case_def high_humidity_case_def get_humidity_def
      get_uvi_def risk_from_hi_def fmt_hour_def utcfromtimestamp_ok_def hour_of_day_def
      strftime_I_p_def digit_char_def py_max_def Let_def)

lemma process_forecast_no_bump_below_8:
  "\<exists>r. process_forecast 0
     [\<lparr>h_dt = Some 0, h_temp = Some 100, h_humidity = Some 50, h_uvi = Some 7\<rparr>]
   = Inr ([r], r) \<and> hi_f r = 118.3158115 \<and> risk r = High \<and> uvi r = 7 \<and> rh r = 50"
  by (simp add: process_forecast_def annotate_def heat_index_f_value noaa_heat_index_def
      rothfusz_polynomial_def low_humidity_case_def high_humidity_case_def get_humidity_def
      get_uvi_def risk_from_hi_def fmt_hour_def utcfromtimestamp_ok_def hour_of_day_def
      strftime_I_p_def digit_char_def py_max_def Let_def)

subsection \<open>Safe windows\<close>

lemma span_run_fst_mem: "fst (span_run e gs) \<in> insert e (set gs)"
  by (induction gs arbitrary: e) auto

lemma span_run_no_successor:
  "\<forall>a \<in> set gs. a \<noteq> Suc e \<Longrightarrow> span_run e gs = (e, gs)"
  by (cases gs) simp_all

lemma extend_run_span:
  assumes "i < length g"
  shows "fst (extend_run g i e) < length g
    \<and> snd (extend_run g i e) = fst (span_run e (drop (Suc i) g))
    \<and> drop (Suc (fst (extend_run g i e))) g = snd (span_run e (drop (Suc i) g))"
  using assms
proof (induction g i e rule: extend_run.induct)
  case (1 good i end_i)
  show ?case
  proof (cases "i + 1 < length good \<and> good ! (i + 1) = end_i + 1")
    case True
    have step: "extend_run good i end_i = extend_run good (i + 1) (good ! (i + 1))"
      by (subst extend_run.simps) (simp only: if_P [OF True])
    from True have lt: "i + 1 < length good" by simp
    then have d: "drop (Suc i) good = good ! (i + 1) # drop (Suc (i + 1)) good"
      by (simp add: Cons_nth_drop_Suc)
    from True have eq: "good ! (i + 1) = end_i + 1" by simp
    have "span_run end_i (good ! (i + 1) # drop (Suc (i + 1)) good)
        = span_run (good ! (i + 1)) (drop (Suc (i + 1)) good)"
      using eq by simp
    then have s: "span_run end_i (drop (Suc i) good)
        = span_run (good ! (i + 1)) (drop (Suc (i + 1)) good)"
      by (simp only: d)
    from "1.IH" [OF True lt] show ?thesis
      by (simp only: step s)
  next
    case False
    have stop: "extend_run good i end_i = (i, end_i)"
      by (subst extend_run.simps) (simp only: if_not_P [OF False])
    have "span_run end_i (drop (Suc i) good) = (end_i, drop (Suc i) good)"
    proof (cases "i + 1 < length good")
      case True
      with False have "good ! (i + 1) \<noteq> end_i + 1" by simp
      moreover from True have "drop (Suc i) good = good ! (i + 1) # drop (Suc (i + 1)) good"
        by (simp add: Cons_nth_drop_Suc)
      ultimately show ?thesis by simp
    next
      case False
      then show ?thesis by simp
    qed
    with 1 show ?thesis by (simp add: stop)
  qed
qed

lemma window_loop_group:
  assumes "\<forall>a \<in> set g. a < length rows"
  shows "window_loop rows g i acc =
    Inr (acc @ map (\<lambda>(a, b). (ts (rows ! a), ts (rows ! b))) (group_runs (drop i g)))"
  using assms
proof (induction rows g i acc rule: window_loop.induct)
  case (1 rows good i windows)
  show ?case
  proof (cases "i < length good")
    case True
    let ?s = "good ! i"
    let ?p = "extend_run good i ?s"
    let ?e = "snd ?p"
    note sp = extend_run_span [OF True, of ?s]
    have s: "?s < length rows" using True "1.prems" by simp
    have "?e \<in> insert ?s (set (drop (Suc i) good))"
      using sp span_run_fst_mem [of ?s "drop (Suc i) good"] by simp
    then have "?e \<in> set good" using True by (auto dest: in_set_dropD)
    then have e: "?e < length rows" using "1.prems" by simp
    have step: "window_loop rows good i windows
        = window_loop rows good (Suc (fst ?p)) (windows @ [(ts (rows ! ?s), ts (rows ! ?e))])"
      using True s e by (subst window_loop.simps) (simp add: Let_def)
    have ih: "window_loop rows good (Suc (fst ?p)) (windows @ [(ts (rows ! ?s), ts (rows ! ?e))])
        = Inr ((windows @ [(ts (rows ! ?s), ts (rows ! ?e))])
               @ map (\<lambda>(a, b). (ts (rows ! a), ts (rows ! b)))
                   (group_runs (drop (Suc (fst ?p)) good)))"
      using "1.IH" [OF True refl refl refl _ "1.prems"] s e by simp
    have "drop i good = ?s # drop (Suc i) good"
      using True by (simp add: Cons_nth_drop_Suc)
    then have grp: "group_runs (drop i good) = (?s, ?e) # group_runs (drop (Suc (fst ?p)) good)"
      using sp by simp
    show ?thesis unfolding step ih grp by simp
  next
    case False
    then have "window_loop rows good i windows = Inr windows"
      by (subst window_loop.simps) simp
    with False show ?thesis by simp
  qed
qed

lemma good_from_Nil: "good_from k [] = []"
  by (simp add: good_from_def)

lemma good_from_Cons:
  "good_from k (r # rs) = (if is_safe r then k # good_from (Suc k) rs else good_from (Suc k) rs)"
  by (simp add: good_from_def)

lemma good_from_bounds: "a \<in> set (good_from k rs) \<Longrightarrow> k \<le> a \<and> a < k + length rs"
proof (induction rs arbitrary: k)
  case Nil
  then show ?case by (simp add: good_from_Nil)
next
  case (Cons r rs)
  then show ?case by (fastforce simp: good_from_Cons split: if_splits)
qed

lemma span_run_good_from:
  "span_run k (good_from (Suc k) rs) =
     (k + length (takeWhile is_safe rs),
      good_from (Suc (k + length (takeWhile is_safe rs))) (dropWhile is_safe rs))"
proof (induction rs arbitrary: k)
  case Nil
  show ?case by (simp add: good_from_Nil)
next
  case (Cons r rs)
  show ?case
  proof (cases "is_safe r")
    case True
    then show ?thesis using Cons.IH [of "Suc k"] by (simp add: good_from_Cons)
  next
    case False
    have "\<forall>a \<in> set (good_from (Suc (Suc k)) rs). a \<noteq> Suc k"
      using good_from_bounds [of _ "Suc (Suc k)" rs] by fastforce
    then have "span_run k (good_from (Suc (Suc k)) rs) = (k, good_from (Suc (Suc k)) rs)"
      by (rule span_run_no_successor)
    with False show ?thesis by (simp add: good_from_Cons)
  qed
qed

lemma group_runs_good_from:
  assumes "drop k rows = rs"
  shows "map (\<lambda>(a, b). (ts (rows ! a), ts (rows ! b))) (group_runs (good_from k rs))
    = map window_of_run (safe_runs rs)"
  using assms
proof (induction rs arbitrary: k rule: safe_runs.induct)
  case 1
  show ?case by (simp add: good_from_Nil)
next
  case (2 r rs)
  show ?case
  proof (cases "is_safe r")
    case True
    let ?n = "length (takeWhile is_safe rs)"
    have k: "k < length rows" using "2.prems" by (metis drop_eq_Nil list.distinct(1) not_le)
    have d: "drop (Suc (k + ?n)) rows = dropWhile is_safe rs"
    proof -
      have "drop (Suc (k + ?n)) rows = drop (Suc ?n) (drop k rows)" by (simp add: add.commute)
      also have "\<dots> = drop ?n rs" using "2.prems" by simp
      also have "\<dots> = dropWhile is_safe rs" by (simp add: dropWhile_eq_drop)
      finally show ?thesis .
    qed
    have first: "rows ! k = r"
      using "2.prems" k by (metis hd_drop_conv_nth list.sel(1))
    have "rows ! (k + ?n) = (drop k rows) ! ?n" using k by simp
    also have "\<dots> = (r # rs) ! ?n" using "2.prems" by simp
    also have "\<dots> = ((r # takeWhile is_safe rs) @ dropWhile is_safe rs) ! ?n" by simp
    also have "\<dots> = (r # takeWhile is_safe rs) ! ?n"
      using nth_append [of "r # takeWhile is_safe rs" "dropWhile is_safe rs" ?n]
      by (simp del: takeWhile_dropWhile_id append_Cons)
    also have "\<dots> = last (r # takeWhile is_safe rs)"
      by (simp add: last_conv_nth)
    finally have lst: "rows ! (k + ?n) = last (r # takeWhile is_safe rs)" .
    have "group_runs (good_from k (r # rs))
        = (k, k + ?n) # group_runs (good_from (Suc (k + ?n)) (dropWhile is_safe rs))"
      using True by (simp add: good_from_Cons span_run_good_from)
    moreover have "map (\<lambda>(a, b). (ts (rows ! a), ts (rows ! b)))
          (group_runs (good_from (Suc (k + ?n)) (dropWhile is_safe rs)))
        = map window_of_run (safe_runs (dropWhile is_safe rs))"
      using "2.IH"(1) [OF True d] .
    ultimately show ?thesis using True first lst
      by (simp add: window_of_run_def)
  next
    case False
    have "drop (Suc k) rows = rs" using "2.prems" by (metis drop_Suc tl_drop list.sel(3))
    from "2.IH"(2) [OF False this] False show ?thesis
      by (simp add: good_from_Cons)
  qed
qed

lemma merge_safe_windows_runs: "merge_safe_windows rows = Inr (map window_of_run (safe_runs rows))"
proof -
  have g: "good_idxs rows = good_from 0 rows" by (simp add: good_idxs_def good_from_def)
  have "\<forall>a \<in> set (good_from 0 rows). a < length rows"
    using good_from_bounds [of _ 0 rows] by simp
  from window_loop_group [OF this, of 0 "[]"] group_runs_good_from [of 0 rows rows]
  show ?thesis by (simp add: merge_safe_windows_def g)
qed

lemma safe_runs_concat: "concat (safe_runs rs) = filter is_safe rs"
proof (induction rs rule: safe_runs.induct)
  case 1
  show ?case by simp
next
  case (2 r rs)
  let ?tw = "takeWhile is_safe rs" and ?dw = "dropWhile is_safe rs"
  show ?case
  proof (cases "is_safe r")
    case True
    have tw: "filter is_safe ?tw = ?tw"
      by (auto simp: filter_id_conv dest: set_takeWhileD)
    have "filter is_safe (?tw @ ?dw) = ?tw @ filter is_safe ?dw"
      by (simp only: filter_append tw)
    then have f: "filter is_safe rs = ?tw @ filter is_safe ?dw"
      by (simp only: takeWhile_dropWhile_id)
    have "concat (safe_runs (r # rs)) = r # ?tw @ concat (safe_runs ?dw)"
      using True by simp
    also have "\<dots> = r # ?tw @ filter is_safe ?dw"
      by (simp only: "2.IH"(1) [OF True])
    also have "\<dots> = r # filter is_safe rs"
      by (simp only: f)
    also have "\<dots> = filter is_safe (r # rs)"
      using True by simp
    finally show ?thesis .
  next
    case False
    then show ?thesis using "2.IH"(2) by simp
  qed
qed

lemma safe_runs_maximal:
  assumes "run \<in> set (safe_runs rs)"
  shows "\<exists>pre post. rs = pre @ run @ post \<and> run \<noteq> [] \<and> list_all is_safe run
           \<and> (pre = [] \<or> \<not> is_safe (last pre)) \<and> (post = [] \<or> \<not> is_safe (hd post))"
  using assms
proof (induction rs rule: safe_runs.induct)
  case 1
  then show ?case by simp
next
  case (2 r rs)
  let ?tw = "takeWhile is_safe rs" and ?dw = "dropWhile is_safe rs"
  have split: "rs = ?tw @ ?dw" by simp
  have stop: "?dw = [] \<or> \<not> is_safe (hd ?dw)"
    using hd_dropWhile [of is_safe rs] by blast
  show ?case
  proof (cases "is_safe r")
    case True
    with "2.prems" consider "run = r # ?tw" | "run \<in> set (safe_runs ?dw)" by auto
    then show ?thesis
    proof cases
      case 1
      have a: "r # rs = [] @ run @ ?dw" unfolding 1 by simp
      have b: "list_all is_safe run"
        unfolding 1 using True by (auto simp: list_all_iff dest: set_takeWhileD)
      have c: "run \<noteq> []" unfolding 1 by simp
      show ?thesis
        by (intro exI [of _ "[]"] exI [of _ ?dw] conjI a b c stop disjI1 refl)
    next
      case 2
      from "2.IH"(1) [OF True 2] obtain pre post where p1: "?dw = pre @ run @ post"
        and p2: "run \<noteq> []" and p3: "list_all is_safe run"
        and p4: "pre = [] \<or> \<not> is_safe (last pre)"
        and p5: "post = [] \<or> \<not> is_safe (hd post)" by blast
      have pre: "pre \<noteq> []"
      proof
        assume e: "pre = []"
        from p2 obtain x xs where run: "run = x # xs" by (cases run) auto
        with p3 have "is_safe x" by simp
        moreover have "?dw = x # xs @ post" unfolding p1 e run by simp
        ultimately show False using stop by simp
      qed
      with p4 have n: "\<not> is_safe (last pre)" by simp
      have a: "r # rs = (r # ?tw @ pre) @ run @ post"
      proof -
        have "r # rs = r # ?tw @ ?dw" by simp
        also have "\<dots> = r # ?tw @ pre @ run @ post" by (simp only: p1)
        finally show ?thesis by simp
      qed
      have l: "last (r # ?tw @ pre) = last pre" using pre by simp
      have d: "(r # ?tw @ pre) = [] \<or> \<not> is_safe (last (r # ?tw @ pre))"
        unfolding l using n by simp
      show ?thesis
        by (intro exI [of _ "r # ?tw @ pre"] exI [of _ post] conjI a p2 p3 d p5)
    qed
  next
    case False
    with "2.prems" have "run \<in> set (safe_runs rs)" by simp
    from "2.IH"(2) [OF False this] obtain pre post where p1: "rs = pre @ run @ post"
      and p2: "run \<noteq> []" and p3: "list_all is_safe run"
      and p4: "pre = [] \<or> \<not> is_safe (last pre)"
      and p5: "post = [] \<or> \<not> is_safe (hd post)" by blast
    have d: "(r # pre) = [] \<or> \<not> is_safe (last (r # pre))" using p4 False by auto
    have a: "r # rs = (r # pre) @ run @ post" by (subst p1) simp
    show ?thesis
      by (intro exI [of _ "r # pre"] exI [of _ post] conjI a p2 p3 d p5)
  qed
qed

lemma window_endpoints:
  assumes "w \<in> set (map window_of_run (safe_runs rs))"
  shows "\<exists>a \<in> set rs. \<exists>b \<in> set rs. w = (ts a, ts b)"
  using assms
proof (induction rs rule: safe_runs.induct)
  case 1
  then show ?case by simp
next
  case (2 r rs)
  show ?case
  proof (cases "is_safe r")
    case True
    with "2.prems" consider "w = window_of_run (r # takeWhile is_safe rs)"
      | "w \<in> set (map window_of_run (safe_runs (dropWhile is_safe rs)))" by auto
    then show ?thesis
    proof cases
      case 1
      have "last (r # takeWhile is_safe rs) \<in> set (r # takeWhile is_safe rs)"
        by (rule last_in_set) simp
      then have "last (r # takeWhile is_safe rs) \<in> set (r # rs)"
        by (auto dest: set_takeWhileD)
      then show ?thesis using 1 by (auto simp: window_of_run_def)
    next
      case 2
      from "2.IH"(1) [OF True 2] show ?thesis by (auto dest: set_dropWhileD)
    qed
  next
    case False
    with "2.prems" "2.IH"(2) show ?thesis by auto
  qed
qed

lemma windows_in_order:
  assumes "sorted_wrt (\<lambda>a b. R (ts a) (ts b)) rs"
  shows "sorted_wrt (\<lambda>v w. R (snd v) (fst w)) (map window_of_run (safe_runs rs))"
  using assms
proof (induction rs rule: safe_runs.induct)
  case 1
  show ?case by simp
next
  case (2 r rs)
  let ?tw = "takeWhile is_safe rs" and ?dw = "dropWhile is_safe rs"
  show ?case
  proof (cases "is_safe r")
    case True
    have "sorted_wrt (\<lambda>a b. R (ts a) (ts b)) ((r # ?tw) @ ?dw)"
      using "2.prems" by simp
    then have dw: "sorted_wrt (\<lambda>a b. R (ts a) (ts b)) ?dw"
      and cross: "\<forall>x \<in> set (r # ?tw). \<forall>y \<in> set ?dw. R (ts x) (ts y)"
      unfolding sorted_wrt_append by blast+
    have l: "last (r # ?tw) \<in> set (r # ?tw)" by (rule last_in_set) simp
    have "R (snd (window_of_run (r # ?tw))) (fst w)"
      if "w \<in> set (map window_of_run (safe_runs ?dw))" for w
    proof -
      from window_endpoints [OF that] obtain a where "a \<in> set ?dw" "fst w = ts a" by auto
      with cross l show ?thesis by (simp add: window_of_run_def)
    qed
    with "2.IH"(1) [OF True dw] True show ?thesis by simp
  next
    case False
    from "2.prems" have "sorted_wrt (\<lambda>a b. R (ts a) (ts b)) rs" by simp
    from "2.IH"(2) [OF False this] False show ?thesis by simp
  qed
qed

lemma windows_start_le_end:
  assumes "sorted (map ts rs)"
  shows "list_all (\<lambda>w. fst w \<le> snd w) (map window_of_run (safe_runs rs))"
  using assms
proof (induction rs rule: safe_runs.induct)
  case 1
  show ?case by simp
next
  case (2 r rs)
  let ?tw = "takeWhile is_safe rs" and ?dw = "dropWhile is_safe rs"
  from "2.prems" have le: "\<forall>x \<in> set rs. ts r \<le> ts x" and srs: "sorted (map ts rs)"
    by simp_all
  show ?case
  proof (cases "is_safe r")
    case True
    have "map ts ?dw = drop (length ?tw) (map ts rs)"
      by (simp add: dropWhile_eq_drop drop_map)
    then have dw: "sorted (map ts ?dw)" using srs by (simp add: sorted_wrt_drop)
    have "last (r # ?tw) \<in> set (r # ?tw)" by (rule last_in_set) simp
    then have "last (r # ?tw) = r \<or> last (r # ?tw) \<in> set rs"
      by (auto dest: set_takeWhileD)
    then have "ts r \<le> ts (last (r # ?tw))" using le by auto
    with "2.IH"(1) [OF True dw] True show ?thesis by (simp add: window_of_run_def)
  next
    case False
    with "2.IH"(2) [OF False srs] show ?thesis by simp
  qed
qed

lemma safe_runs_none: "list_all (\<lambda>r. \<not> is_safe r) rs \<Longrightarrow> safe_runs rs = []"
  by (induction rs) simp_all

lemma safe_runs_all: "rs \<noteq> [] \<Longrightarrow> list_all is_safe rs \<Longrightarrow> safe_runs rs = [rs]"
  by (cases rs) (simp_all add: list_all_iff takeWhile_eq_all_conv [THEN iffD2]
      dropWhile_eq_Nil_conv [THEN iffD2])

lemma no_overlap_after: "snd v < fst w \<Longrightarrow> \<not> overlap v w"
  by (auto simp: overlap_def)

text \<open>
  C4, as stated, fails when a timestamp repeats: three rows at the same second with risks
  Low, High, Low have nondecreasing timestamps and give two windows, and both are the
  interval from 5 to 5.
\<close>


theorem merge_safe_windows_repeated_timestamp:
  "sorted (map ts [sample_row 5 Low, sample_row 5 High, sample_row 5 Low])
   \<and> merge_safe_windows [sample_row 5 Low, sample_row 5 High, sample_row 5 Low]
       = Inr [(5, 5), (5, 5)]
   \<and> overlap (5, 5) (5, 5)"
  by code_simp

text \<open>
  C4, amended: for rows with nondecreasing timestamps the loop returns one window per
  maximal run of Low or Moderate rows that are neighbours in the sequence of rows, from
  the run's first to its last timestamp. The runs are blocks of the sequence, each bounded
  by the ends of the sequence or by a row that is not safe, and together they hold every
  safe row once, in order. Each window has start at most end, and each window ends no
  later than every later one starts; when the timestamps strictly increase no two windows
  overlap. If no row is safe there is no window, and if all rows are safe there is one
  window from the first to the last timestamp.
\<close>


theorem merge_safe_windows_maximal_runs:
  assumes "sorted (map ts rows)"
  shows "merge_safe_windows rows = Inr (map window_of_run (safe_runs rows))
    \<and> concat (safe_runs rows) = filter is_safe rows
    \<and> (\<forall>run \<in> set (safe_runs rows). \<exists>pre post.
          rows = pre @ run @ post \<and> run \<noteq> [] \<and> list_all is_safe run
          \<and> (pre = [] \<or> \<not> is_safe (last pre)) \<and> (post = [] \<or> \<not> is_safe (hd post)))
    \<and> list_all (\<lambda>w. fst w \<le> snd w) (map window_of_run (safe_runs rows))
    \<and> sorted_wrt (\<lambda>v w. snd v \<le> fst w) (map window_of_run (safe_runs rows))
    \<and> (sorted_wrt (<) (map ts rows) \<longrightarrow>
          sorted_wrt (\<lambda>v w. \<not> overlap v w) (map window_of_run (safe_runs rows)))
    \<and> (list_all (\<lambda>r. \<not> is_safe r) rows \<longrightarrow> merge_safe_windows rows = Inr [])
    \<and> (rows \<noteq> [] \<and> list_all is_safe rows \<longrightarrow>
          merge_safe_windows rows = Inr [(ts (hd rows), ts (last rows))])"
proof -
  have le: "sorted_wrt (\<lambda>a b. ts a \<le> ts b) rows"
    using assms by (simp add: sorted_map)
  have ord: "sorted_wrt (\<lambda>v w. snd v \<le> fst w) (map window_of_run (safe_runs rows))"
    using windows_in_order [of "(\<le>)" rows] le by simp
  have strict: "sorted_wrt (\<lambda>v w. \<not> overlap v w) (map window_of_run (safe_runs rows))"
    if "sorted_wrt (<) (map ts rows)"
  proof -
    from that have "sorted_wrt (\<lambda>a b. ts a < ts b) rows" by (simp add: sorted_wrt_map)
    from windows_in_order [of "(<)" rows, OF this]
    have "sorted_wrt (\<lambda>v w. snd v < fst w) (map window_of_run (safe_runs rows))" .
    then show ?thesis
      by (rule sorted_wrt_mono_rel [rotated]) (simp add: no_overlap_after)
  qed
  have none: "merge_safe_windows rows = Inr []" if "list_all (\<lambda>r. \<not> is_safe r) rows"
    using safe_runs_none [OF that] by (simp add: merge_safe_windows_runs)
  have all: "merge_safe_windows rows = Inr [(ts (hd rows), ts (last rows))]"
    if "rows \<noteq> [] \<and> list_all is_safe rows"
    using that safe_runs_all [of rows] by (simp add: merge_safe_windows_runs window_of_run_def)
  have max: "\<forall>run \<in> set (safe_runs rows). \<exists>pre post.
          rows = pre @ run @ post \<and> run \<noteq> [] \<and> list_all is_safe run
          \<and> (pre = [] \<or> \<not> is_safe (last pre)) \<and> (post = [] \<or> \<not> is_safe (hd post))"
    using safe_runs_maximal by blast
  show ?thesis
    using merge_safe_windows_runs [of rows] safe_runs_concat [of rows] max
      windows_start_le_end [OF assms] ord strict none all
    by blast
qed

theorem merge_safe_windows_maximal_runs_witness:
  "sorted (map ts [sample_row 1 Low, sample_row 2 Moderate, sample_row 3 High,
      sample_row 4 Low, sample_row 5 Extreme])
   \<and> sorted_wrt (<) (map ts [sample_row 1 Low, sample_row 2 Moderate, sample_row 3 High,
      sample_row 4 Low, sample_row 5 Extreme])
   \<and> merge_safe_windows [sample_row 1 Low, sample_row 2 Moderate, sample_row 3 High,
      sample_row 4 Low, sample_row 5 Extreme] = Inr [(1, 2), (4, 4)]
   \<and> safe_runs [sample_row 1 Low, sample_row 2 Moderate, sample_row 3 High,
      sample_row 4 Low, sample_row 5 Extreme]
       = [[sample_row 1 Low, sample_row 2 Moderate], [sample_row 4 Low]]
   \<and> sorted_wrt (\<lambda>v w. \<not> overlap v w) [(1, 2), (4, 4)]"
proof -
  let ?rows = "[sample_row 1 Low, sample_row 2 Moderate, sample_row 3 High,
      sample_row 4 Low, sample_row 5 Extreme]"
  have s: "sorted (map ts ?rows)" and st: "sorted_wrt (<) (map ts ?rows)"
    by (simp_all add: sample_row_def)
  have runs: "safe_runs ?rows = [[sample_row 1 Low, sample_row 2 Moderate], [sample_row 4 Low]]"
    by (simp add: sample_row_def is_safe_def)
  have w: "map window_of_run (safe_runs ?rows) = [(1, 2), (4, 4)]"
    unfolding runs by (simp add: window_of_run_def sample_row_def)
  from merge_safe_windows_maximal_runs [OF s] st
  have "merge_safe_windows ?rows = Inr (map window_of_run (safe_runs ?rows))
    \<and> sorted_wrt (\<lambda>v w. \<not> overlap v w) (map window_of_run (safe_runs ?rows))"
    by blast
  then show ?thesis using s st runs unfolding w by simp
qed

text \<open>Alternating Low and High rows give one single-hour window per Low row.\<close>


lemma merge_safe_windows_alternating:
  "merge_safe_windows
     [sample_row 1 Low, sample_row 2 High, sample_row 3 Low, sample_row 4 High]
   = Inr [(1, 1), (3, 3)]"
  by (simp add: merge_safe_windows_runs sample_row_def is_safe_def window_of_run_def)

end
